theory Spec2Isabelle
  imports Main "HOL-Library.AList" "HOL-Library.Sublist"
begin

section \<open>The worker package (foundation/worker/worker.go)\<close>

text \<open>
  The package runs job functions on goroutines, bounded by a semaphore channel, and keeps
  a registry of cancel functions. The embedding is an interleaving semantics: every
  statement (or critical section under \<open>w.mu\<close>) of \<open>New\<close>, \<open>Running\<close>, \<open>Shutdown\<close>,
  \<open>Start\<close>, \<open>Stop\<close> and \<open>removeWork\<close> is one function on the program state, and an
  \<open>action\<close> names the goroutine that moves next together with what the environment
  supplies at that point (the case the runtime picks in a \<open>select\<close>, the identifier
  \<open>uuid.NewString()\<close> returns, the clock, how the job function ends).
\<close>

subsection \<open>Time, contexts and errors\<close>

text \<open>Instants and durations are counted in nanoseconds, as \<open>time.Duration\<close> is.\<close>

type_synonym time = int

definition Second :: time where
  "Second = 1000000000"

datatype cerror = Canceled | DeadlineExceeded

text \<open>
  What the program observes of a \<open>context.Context\<close>: \<open>Deadline()\<close> and \<open>Err()\<close>
  (\<open>Done()\<close> is closed exactly when \<open>Err()\<close> is not nil).
\<close>

record ctx =
  Deadline :: "time option"
  Err :: "cerror option"

definition Background :: ctx where
  "Background = \<lparr>Deadline = None, Err = None\<rparr>"

text \<open>
  \<open>context.WithDeadline(parent, d)\<close>, after the documentation of package context: the
  deadline is \<open>d\<close> unless the parent's is earlier; the new context is done at once when
  the parent is done or the deadline has passed.
\<close>

definition WithDeadline :: "ctx \<Rightarrow> time \<Rightarrow> time \<Rightarrow> ctx" where
  "WithDeadline parent d now =
     (let dl = (case Deadline parent of
                  Some cur \<Rightarrow> if cur < d then cur else d
                | None \<Rightarrow> d)
      in \<lparr>Deadline = Some dl,
          Err = (case Err parent of
                   Some e \<Rightarrow> Some e
                 | None \<Rightarrow> if dl \<le> now then Some DeadlineExceeded else None)\<rparr>)"

text \<open>The cancel function of a context: the first cause wins, later calls do nothing.\<close>

definition cancel :: "ctx \<Rightarrow> ctx" where
  "cancel c = (case Err c of None \<Rightarrow> c\<lparr>Err := Some Canceled\<rparr> | Some e \<Rightarrow> c)"

text \<open>The timer of a deadline context firing.\<close>

definition expire :: "ctx \<Rightarrow> ctx" where
  "expire c = (case Err c of None \<Rightarrow> c\<lparr>Err := Some DeadlineExceeded\<rparr> | Some e \<Rightarrow> c)"

text \<open>
  Errors: \<open>errors.New\<close> and \<open>fmt.Errorf\<close> values carry their message, \<open>ctx.Err()\<close> is
  one of the two context errors.
\<close>

datatype error = ErrorString string | CtxError cerror

definition errInvalidCapacity :: error where
  "errInvalidCapacity = ErrorString ''max running jobs must be greater than 0''"

definition errShuttingDown :: error where
  "errShuttingDown = ErrorString ''shutting down''"

definition errNotRunning :: "string \<Rightarrow> error" where
  "errNotRunning workKey = ErrorString (''work['' @ workKey @ ''] is not running'')"

subsection \<open>Goroutines\<close>

text \<open>
  The goroutine launched by \<open>Start\<close> (lines 119-129) registers two deferred functions and
  calls \<open>fn(ctx)\<close>. \<open>deferred\<close> lists them in the order the \<open>defer\<close> statements run;
  deferred calls execute last-in first-out, on return and on panic alike.
\<close>

datatype jop = RunFn | CancelCtx | RemoveWork | WgDone | SemSend

definition deferred :: "jop list list" where
  "deferred = [[SemSend], [CancelCtx, RemoveWork, WgDone]]"

definition job_body :: "jop list" where
  "job_body = RunFn # concat (rev deferred)"

record job =
  jkey :: string
  jctx :: nat
  todo :: "jop list"
  panicking :: bool

text \<open>A \<open>Start\<close> call that has left its \<open>select\<close> with a token (line 97) and has not returned.\<close>

datatype start_call = Admitted ctx | Launched

text \<open>
  A \<open>Shutdown\<close> call after line 58, the goroutine of lines 72-75 that it launches, and
  the channel \<open>ch\<close> between them (closed or not).
\<close>

datatype sd_pc = AtCancelAll | AtSpawn | AtSelect | SdReturned

datatype wt_pc = NoWaiter | AtWait | AtClose | WtExited

record shutdown_call =
  spc :: sd_pc
  wpc :: wt_pc
  ch :: bool

subsection \<open>Program state\<close>

text \<open>
  The first five fields are the \<open>Worker\<close> struct: the buffer of \<open>sem\<close> and its capacity,
  whether \<open>isShutdown\<close> is closed (nothing is ever sent on it), the \<open>running\<close> map in
  insertion order, and the counter of \<open>wg\<close>. A cancel function in \<open>running\<close> is the
  address in \<open>ctxs\<close> of the context it cancels. \<open>mu\<close> has no field: each critical section
  is one step (that of \<open>Start\<close>, lines 113-131, includes \<open>wg.Add(1)\<close> and the \<open>go\<close>
  statement). The other fields are the heap of derived contexts and the goroutines;
  \<open>crashed\<close> says that a goroutine ended panicking, which ends the process.
\<close>

record state =
  sem_cap :: nat
  sem :: "bool list"
  isShutdown :: bool
  running :: "(string \<times> nat) list"
  wg :: nat
  ctxs :: "ctx list"
  starts :: "start_call list"
  jobs :: "job list"
  shutdowns :: "shutdown_call list"
  crashed :: bool

text \<open>
  A send on a channel whose buffer holds \<open>c\<close> values: \<open>None\<close> when the buffer is full and
  the send has to wait. A receiver that is already waiting and takes the value directly
  behaves as the send followed by the receive. With \<open>c = 0\<close> a send would need a
  simultaneous receiver; only job goroutines send on \<open>sem\<close> after \<open>New\<close>, and a worker of
  capacity 0 never has one (\<open>cap0_run\<close> below).
\<close>

definition chan_send :: "nat \<Rightarrow> bool \<Rightarrow> bool list \<Rightarrow> bool list option" where
  "chan_send c v buf = (if length buf < c then Some (buf @ [v]) else None)"

subsection \<open>New (lines 28-45)\<close>

function fill_sem :: "int \<Rightarrow> int \<Rightarrow> nat \<Rightarrow> bool list \<Rightarrow> bool list option" where
  "fill_sem i capacity c buf =
     (if i < capacity
      then (case chan_send c True buf of
              None \<Rightarrow> None
            | Some buf' \<Rightarrow> fill_sem (i + 1) capacity c buf')
      else Some buf)"
  by pat_completeness auto
termination
  by (relation "measure (\<lambda>(i, capacity, c, buf). nat (capacity - i))") auto

declare fill_sem.simps [simp del]

definition new_worker :: "nat \<Rightarrow> bool list \<Rightarrow> state" where
  "new_worker c buf =
     \<lparr>sem_cap = c, sem = buf, isShutdown = False, running = [], wg = 0,
      ctxs = [], starts = [], jobs = [], shutdowns = [], crashed = False\<rparr>"

text \<open>
  \<open>None\<close>: the loop of lines 34-36 blocks forever; \<open>Inl\<close>: the error return. The
  capacity is an unbounded integer here: the loop counter cannot overflow below
  \<open>capacity\<close>, and a \<open>make\<close> that fails for lack of memory is outside the embedding.
\<close>

definition New :: "int \<Rightarrow> (error + state) option" where
  "New capacity =
     (if capacity < 0 then Some (Inl errInvalidCapacity)
      else (case fill_sem 0 capacity (nat capacity) [] of
              None \<Rightarrow> None
            | Some buf \<Rightarrow> Some (Inr (new_worker (nat capacity) buf))))"

subsection \<open>Running (lines 48-53)\<close>

definition Running :: "state \<Rightarrow> nat" where
  "Running s = length (running s)"

subsection \<open>Observations\<close>

datatype obs =
    Tau
  | StartReturn string "error option"
  | StopReturn "error option"
  | RunningReturn nat
  | ShutdownReturn "error option"
  | Panic string
  | JobEv nat jop

text \<open>Calling the cancel function stored at address \<open>c\<close>.\<close>

definition cancel_at :: "nat \<Rightarrow> state \<Rightarrow> state" where
  "cancel_at c s =
     (if c < length (ctxs s) then s\<lparr>ctxs := (ctxs s)[c := cancel (ctxs s ! c)]\<rparr> else s)"

subsection \<open>Start (lines 89-132)\<close>

text \<open>
  The \<open>select\<close> of lines 92-98. Case \<open>k\<close> (0: \<open>isShutdown\<close>, 1: \<open>ctx.Done()\<close>, 2: \<open>sem\<close>)
  is the one the runtime picks; it can be picked only if its communication can proceed,
  and the Go runtime picks among the ready cases at random, whatever their order in the
  source. No result means that case \<open>k\<close> is not ready.
\<close>

definition Start_select :: "ctx \<Rightarrow> nat \<Rightarrow> state \<Rightarrow> (obs \<times> state) option" where
  "Start_select ctx k s =
     (if k = 0 \<and> isShutdown s then Some (StartReturn [] (Some errShuttingDown), s)
      else if k = 1 \<and> Err ctx \<noteq> None then Some (StartReturn [] (map_option CtxError (Err ctx)), s)
      else if k = 2 \<and> sem s \<noteq> []
        then Some (Tau, s\<lparr>sem := tl (sem s), starts := starts s @ [Admitted ctx]\<rparr>)
      else None)"

text \<open>Lines 104-107.\<close>

definition job_deadline :: "ctx \<Rightarrow> time \<Rightarrow> time" where
  "job_deadline ctx now = (case Deadline ctx of Some d \<Rightarrow> d | None \<Rightarrow> now + Second)"

text \<open>
  Lines 101-131 for the admitted call \<open>i\<close>: \<open>workKey\<close> is what \<open>uuid.NewString()\<close>
  returns and \<open>now\<close> what \<open>time.Now()\<close> reads.
\<close>

definition Start_launch :: "nat \<Rightarrow> string \<Rightarrow> time \<Rightarrow> state \<Rightarrow> (obs \<times> state) option" where
  "Start_launch i workKey now s =
     (if i < length (starts s)
      then (case starts s ! i of
              Launched \<Rightarrow> None
            | Admitted ctx \<Rightarrow>
                (let c = length (ctxs s)
                 in Some (StartReturn workKey None,
                      s\<lparr>ctxs := ctxs s @ [WithDeadline Background (job_deadline ctx now) now],
                        running := AList.update workKey c (running s),
                        wg := wg s + 1,
                        jobs := jobs s @ [\<lparr>jkey = workKey, jctx = c, todo = job_body,
                                            panicking = False\<rparr>],
                        starts := (starts s)[i := Launched]\<rparr>)))
      else None)"

subsection \<open>The job goroutine (lines 119-129) and removeWork (lines 151-156)\<close>

definition removeWork :: "string \<Rightarrow> state \<Rightarrow> state" where
  "removeWork workKey s = s\<lparr>running := AList.delete workKey (running s)\<rparr>"

text \<open>
  One operation of job \<open>jb\<close>; the result says whether the operation panicked.
  \<open>fn(ctx)\<close> returns or panics as \<open>p\<close> says; \<open>wg.Done()\<close> panics on a zero counter;
  the send on \<open>sem\<close> has no result while the buffer is full.
\<close>

definition exec_jop :: "jop \<Rightarrow> job \<Rightarrow> bool \<Rightarrow> state \<Rightarrow> (bool \<times> state) option" where
  "exec_jop op jb p s =
     (case op of
        RunFn \<Rightarrow> Some (p, s)
      | CancelCtx \<Rightarrow> Some (False, cancel_at (jctx jb) s)
      | RemoveWork \<Rightarrow> Some (False, removeWork (jkey jb) s)
      | WgDone \<Rightarrow> (if wg s = 0 then Some (True, s) else Some (False, s\<lparr>wg := wg s - 1\<rparr>))
      | SemSend \<Rightarrow> (case chan_send (sem_cap s) True (sem s) of
                      None \<Rightarrow> None
                    | Some buf \<Rightarrow> Some (False, s\<lparr>sem := buf\<rparr>)))"

text \<open>
  Goroutine \<open>j\<close> runs its next operation. A goroutine that ends panicking ends the
  process.
\<close>

definition Job_step :: "nat \<Rightarrow> bool \<Rightarrow> state \<Rightarrow> (obs \<times> state) option" where
  "Job_step j p s =
     (if j < length (jobs s)
      then (let jb = jobs s ! j in
            case todo jb of
              [] \<Rightarrow> None
            | op # rest \<Rightarrow>
                (case exec_jop op jb p s of
                   None \<Rightarrow> None
                 | Some (pn, s') \<Rightarrow>
                     (let jb' = jb\<lparr>todo := rest, panicking := (panicking jb \<or> pn)\<rparr>
                      in Some (JobEv j op,
                           s'\<lparr>jobs := (jobs s')[j := jb'],
                              crashed := (rest = [] \<and> panicking jb')\<rparr>))))
      else None)"

text \<open>The deadline timer of the context at address \<open>c\<close> fires.\<close>

definition Ctx_expire :: "nat \<Rightarrow> state \<Rightarrow> (obs \<times> state) option" where
  "Ctx_expire c s =
     (if c < length (ctxs s) then Some (Tau, s\<lparr>ctxs := (ctxs s)[c := expire (ctxs s ! c)]\<rparr>)
      else None)"

subsection \<open>Stop (lines 135-148)\<close>

definition Stop :: "string \<Rightarrow> state \<Rightarrow> obs \<times> state" where
  "Stop workKey s =
     (case map_of (running s) workKey of
        None \<Rightarrow> (StopReturn (Some (errNotRunning workKey)), s)
      | Some c \<Rightarrow> (StopReturn None, cancel_at c s))"

subsection \<open>Shutdown (lines 56-85)\<close>

text \<open>Line 58: closing a closed channel panics.\<close>

definition Shutdown_close :: "state \<Rightarrow> obs \<times> state" where
  "Shutdown_close s =
     (if isShutdown s then (Panic ''close of closed channel'', s)
      else (Tau, s\<lparr>isShutdown := True,
                   shutdowns := shutdowns s @ [\<lparr>spc = AtCancelAll, wpc = NoWaiter, ch = False\<rparr>]\<rparr>))"

text \<open>Lines 61-67.\<close>

definition cancel_all :: "state \<Rightarrow> state" where
  "cancel_all s = fold cancel_at (map snd (running s)) s"

definition Shutdown_cancelAll :: "nat \<Rightarrow> state \<Rightarrow> (obs \<times> state) option" where
  "Shutdown_cancelAll i s =
     (if i < length (shutdowns s) \<and> spc (shutdowns s ! i) = AtCancelAll
      then (let s' = cancel_all s
            in Some (Tau, s'\<lparr>shutdowns := (shutdowns s')[i := (shutdowns s' ! i)\<lparr>spc := AtSpawn\<rparr>]\<rparr>))
      else None)"

text \<open>Lines 71-75: the channel is made and the waiting goroutine launched.\<close>

definition Shutdown_spawn :: "nat \<Rightarrow> state \<Rightarrow> (obs \<times> state) option" where
  "Shutdown_spawn i s =
     (if i < length (shutdowns s) \<and> spc (shutdowns s ! i) = AtSpawn
      then Some (Tau, s\<lparr>shutdowns :=
                          (shutdowns s)[i := (shutdowns s ! i)\<lparr>spc := AtSelect, wpc := AtWait\<rparr>]\<rparr>)
      else None)"

text \<open>Line 73: \<open>wg.Wait()\<close> returns when the counter is zero.\<close>

definition Waiter_wait :: "nat \<Rightarrow> state \<Rightarrow> (obs \<times> state) option" where
  "Waiter_wait i s =
     (if i < length (shutdowns s) \<and> wpc (shutdowns s ! i) = AtWait \<and> wg s = 0
      then Some (Tau, s\<lparr>shutdowns := (shutdowns s)[i := (shutdowns s ! i)\<lparr>wpc := AtClose\<rparr>]\<rparr>)
      else None)"

text \<open>Line 74.\<close>

definition Waiter_close :: "nat \<Rightarrow> state \<Rightarrow> (obs \<times> state) option" where
  "Waiter_close i s =
     (if i < length (shutdowns s) \<and> wpc (shutdowns s ! i) = AtClose
      then Some (Tau, s\<lparr>shutdowns :=
                          (shutdowns s)[i := (shutdowns s ! i)\<lparr>wpc := WtExited, ch := True\<rparr>]\<rparr>)
      else None)"

text \<open>
  The \<open>select\<close> of lines 79-84 (case 0: \<open>ch\<close>, case 1: \<open>ctx.Done()\<close>); \<open>ctx\<close> is the
  caller's context as it is when the \<open>select\<close> is decided.
\<close>

definition Shutdown_select :: "nat \<Rightarrow> ctx \<Rightarrow> nat \<Rightarrow> state \<Rightarrow> (obs \<times> state) option" where
  "Shutdown_select i ctx k s =
     (if i < length (shutdowns s) \<and> spc (shutdowns s ! i) = AtSelect
      then (let ret = s\<lparr>shutdowns := (shutdowns s)[i := (shutdowns s ! i)\<lparr>spc := SdReturned\<rparr>]\<rparr>
            in if k = 0 \<and> ch (shutdowns s ! i) then Some (ShutdownReturn None, ret)
               else if k = 1 \<and> Err ctx \<noteq> None
                 then Some (ShutdownReturn (map_option CtxError (Err ctx)), ret)
               else None)
      else None)"

subsection \<open>Interleavings\<close>

datatype action =
    StartSelect ctx nat
  | StartLaunch nat string time
  | JobStep nat bool
  | CtxExpire nat
  | CallStop string
  | CallRunning
  | ShutdownClose
  | ShutdownCancelAll nat
  | ShutdownSpawn nat
  | WaiterWait nat
  | WaiterClose nat
  | ShutdownSelect nat ctx nat

definition step :: "action \<Rightarrow> state \<Rightarrow> (obs \<times> state) option" where
  "step a s =
     (if crashed s then None
      else (case a of
              StartSelect ctx k \<Rightarrow> Start_select ctx k s
            | StartLaunch i workKey now \<Rightarrow> Start_launch i workKey now s
            | JobStep j p \<Rightarrow> Job_step j p s
            | CtxExpire c \<Rightarrow> Ctx_expire c s
            | CallStop workKey \<Rightarrow> Some (Stop workKey s)
            | CallRunning \<Rightarrow> Some (RunningReturn (Running s), s)
            | ShutdownClose \<Rightarrow> Some (Shutdown_close s)
            | ShutdownCancelAll i \<Rightarrow> Shutdown_cancelAll i s
            | ShutdownSpawn i \<Rightarrow> Shutdown_spawn i s
            | WaiterWait i \<Rightarrow> Waiter_wait i s
            | WaiterClose i \<Rightarrow> Waiter_close i s
            | ShutdownSelect i ctx k \<Rightarrow> Shutdown_select i ctx k s))"

text \<open>
  A schedule runs from a configuration: the observations so far and the state. \<open>None\<close>
  when some action of the schedule cannot move.
\<close>

fun run :: "action list \<Rightarrow> obs list \<times> state \<Rightarrow> (obs list \<times> state) option" where
  "run [] cfg = Some cfg"
| "run (a # as) cfg =
     (case step a (snd cfg) of
        None \<Rightarrow> None
      | Some (ob, s') \<Rightarrow> run as (fst cfg @ [ob], s'))"

subsection \<open>Notions used by the properties\<close>

text \<open>
  A job function is executing until \<open>fn(ctx)\<close> has ended; a job goroutine holds its token
  until it has sent on \<open>sem\<close>; a \<open>Start\<close> call holds one from its \<open>select\<close> until it
  has launched the goroutine.
\<close>

definition executing :: "job \<Rightarrow> bool" where
  "executing jb \<longleftrightarrow> RunFn \<in> set (todo jb)"

definition holding :: "job \<Rightarrow> bool" where
  "holding jb \<longleftrightarrow> SemSend \<in> set (todo jb)"

fun admitted :: "start_call \<Rightarrow> bool" where
  "admitted (Admitted c) = True"
| "admitted Launched = False"

text \<open>
  Tokens outside \<open>sem\<close>, and the accounting that every reachable state satisfies; every
  goroutine is somewhere in \<open>job_body\<close>.
\<close>

definition tokens_out :: "state \<Rightarrow> nat" where
  "tokens_out s = length (filter admitted (starts s)) + length (filter holding (jobs s))"

definition tokens_inv :: "state \<Rightarrow> bool" where
  "tokens_inv s \<longleftrightarrow>
     length (sem s) + tokens_out s = sem_cap s \<and>
     (\<forall>jb \<in> set (jobs s). suffix (todo jb) job_body)"

text \<open>The operations goroutine \<open>j\<close> has run, in order, as the observations record them.\<close>

fun job_trace :: "nat \<Rightarrow> obs list \<Rightarrow> jop list" where
  "job_trace j [] = []"
| "job_trace j (JobEv i op # evs) = (if i = j then op # job_trace j evs else job_trace j evs)"
| "job_trace j (ev # evs) = job_trace j evs"

text \<open>What goroutine \<open>j\<close> has run and what it still has to run make up \<open>job_body\<close>.\<close>

definition trace_ok :: "nat \<Rightarrow> obs list \<Rightarrow> state \<Rightarrow> bool" where
  "trace_ok j evs s \<longleftrightarrow>
     (if j < length (jobs s) then job_trace j evs @ todo (jobs s ! j) = job_body
      else job_trace j evs = [])"

text \<open>
  The counter of \<open>wg\<close> counts the goroutines that have not called \<open>wg.Done()\<close>, and every
  key in \<open>running\<close> belongs to a goroutine that has not called \<open>removeWork\<close>.
\<close>

definition drain_inv :: "state \<Rightarrow> bool" where
  "drain_inv s \<longleftrightarrow>
     wg s = length (filter (\<lambda>jb. WgDone \<in> set (todo jb)) (jobs s)) \<and>
     (\<forall>k \<in> fst ` set (running s).
        \<exists>i < length (jobs s). jkey (jobs s ! i) = k \<and> RemoveWork \<in> set (todo (jobs s ! i)))"

section \<open>New returns\<close>

lemma fill_sem_replicate:
  "0 \<le> i \<Longrightarrow> i \<le> capacity \<Longrightarrow> length buf = nat i \<Longrightarrow>
   fill_sem i capacity (nat capacity) buf = Some (buf @ replicate (nat (capacity - i)) True)"
proof (induction i capacity "nat capacity" buf rule: fill_sem.induct)
  case (1 i capacity buf)
  show ?case
  proof (cases "i < capacity")
    case True
    then have snd: "chan_send (nat capacity) True buf = Some (buf @ [True])"
      using 1 by (simp add: chan_send_def)
    have "fill_sem (i + 1) capacity (nat capacity) (buf @ [True])
          = Some ((buf @ [True]) @ replicate (nat (capacity - (i + 1))) True)"
      using 1 True snd by (simp add: nat_add_distrib)
    moreover have "nat (capacity - i) = Suc (nat (capacity - (i + 1)))"
      using True by simp
    ultimately show ?thesis
      using True snd by (subst fill_sem.simps) (simp add: replicate_app_Cons_same)
  next
    case False
    then show ?thesis using 1 by (subst fill_sem.simps) simp
  qed
qed

lemma New_nonneg:
  "0 \<le> capacity \<Longrightarrow>
   New capacity = Some (Inr (new_worker (nat capacity) (replicate (nat capacity) True)))"
  using fill_sem_replicate [of 0 capacity "[]"] by (simp add: New_def)

section \<open>Token accounting\<close>

lemma length_filter_update:
  "i < length xs \<Longrightarrow>
   length (filter P (xs[i := y])) + (if P (xs ! i) then 1 else 0)
   = length (filter P xs) + (if P y then 1 else 0)"
proof (induction xs arbitrary: i)
  case Nil
  then show ?case by simp
next
  case (Cons x xs)
  then show ?case by (cases i) auto
qed

lemma job_body_eq: "job_body = [RunFn, CancelCtx, RemoveWork, WgDone, SemSend]"
  by (simp add: job_body_def deferred_def)

lemma suffix_body_tl:
  "suffix (op # rest) job_body \<Longrightarrow> suffix rest job_body"
  by (meson suffix_ConsD)

lemma suffix_body_SemSend:
  "suffix (SemSend # rest) job_body \<Longrightarrow> rest = []"
  by (auto simp: job_body_eq suffix_Cons)

lemma suffix_body_holding:
  "suffix (op # rest) job_body \<Longrightarrow> op \<noteq> SemSend \<Longrightarrow> SemSend \<in> set rest"
  by (auto simp: job_body_eq suffix_Cons)

lemma suffix_body_executing:
  "suffix xs job_body \<Longrightarrow> RunFn \<in> set xs \<Longrightarrow> SemSend \<in> set xs"
  by (auto simp: job_body_eq suffix_Cons)

lemma cancel_at_fields [simp]:
  "sem (cancel_at c s) = sem s" "sem_cap (cancel_at c s) = sem_cap s"
  "starts (cancel_at c s) = starts s" "jobs (cancel_at c s) = jobs s"
  "isShutdown (cancel_at c s) = isShutdown s" "running (cancel_at c s) = running s"
  "wg (cancel_at c s) = wg s" "shutdowns (cancel_at c s) = shutdowns s"
  "crashed (cancel_at c s) = crashed s" "length (ctxs (cancel_at c s)) = length (ctxs s)"
  by (simp_all add: cancel_at_def)

lemma fold_cancel_at_fields [simp]:
  "sem (fold cancel_at cs s) = sem s" "sem_cap (fold cancel_at cs s) = sem_cap s"
  "starts (fold cancel_at cs s) = starts s" "jobs (fold cancel_at cs s) = jobs s"
  "isShutdown (fold cancel_at cs s) = isShutdown s" "running (fold cancel_at cs s) = running s"
  "wg (fold cancel_at cs s) = wg s" "shutdowns (fold cancel_at cs s) = shutdowns s"
  "crashed (fold cancel_at cs s) = crashed s"
  "length (ctxs (fold cancel_at cs s)) = length (ctxs s)"
  by (induction cs arbitrary: s; simp)+

lemma tokens_inv_cong:
  "tokens_inv s \<Longrightarrow> sem s' = sem s \<Longrightarrow> sem_cap s' = sem_cap s \<Longrightarrow> starts s' = starts s \<Longrightarrow>
   jobs s' = jobs s \<Longrightarrow> tokens_inv s'"
  by (simp add: tokens_inv_def tokens_out_def)

lemma tokens_inv_Start_select:
  "tokens_inv s \<Longrightarrow> Start_select c k s = Some (ob, s') \<Longrightarrow> tokens_inv s'"
  by (cases "sem s") (auto simp: Start_select_def tokens_inv_def tokens_out_def split: if_splits)

lemma tokens_inv_Start_launch:
  assumes "tokens_inv s" "Start_launch i key now s = Some (ob, s')"
  shows "tokens_inv s'"
proof -
  from assms(2) obtain c where i: "i < length (starts s)" and a: "starts s ! i = Admitted c"
    by (auto simp: Start_launch_def split: if_splits start_call.splits)
  from length_filter_update [OF i, of admitted Launched] a
  have "length (filter admitted ((starts s)[i := Launched])) + 1 = length (filter admitted (starts s))"
    by simp
  moreover have "holding \<lparr>jkey = key, jctx = length (ctxs s), todo = job_body, panicking = False\<rparr>"
    by (simp add: holding_def job_body_eq)
  ultimately show ?thesis
    using assms i a
    by (auto simp: Start_launch_def tokens_inv_def tokens_out_def Let_def)
qed

lemma tokens_inv_Job_step:
  assumes "tokens_inv s" "Job_step j p s = Some (ob, s')"
  shows "tokens_inv s'"
proof -
  from assms(2) obtain op rest pn s1 where j: "j < length (jobs s)"
    and td: "todo (jobs s ! j) = op # rest"
    and ex: "exec_jop op (jobs s ! j) p s = Some (pn, s1)"
    and s': "s' = s1\<lparr>jobs := (jobs s1)[j := (jobs s ! j)\<lparr>todo := rest,
                 panicking := (panicking (jobs s ! j) \<or> pn)\<rparr>],
               crashed := (rest = [] \<and> (panicking (jobs s ! j) \<or> pn))\<rparr>"
    by (auto simp: Job_step_def Let_def split: if_splits list.splits option.splits)
  let ?jb = "jobs s ! j"
  let ?jb' = "?jb\<lparr>todo := rest, panicking := (panicking ?jb \<or> pn)\<rparr>"
  have suf: "suffix (op # rest) job_body"
  proof -
    have "jobs s ! j \<in> set (jobs s)" using j by simp
    then have "suffix (todo (jobs s ! j)) job_body"
      using assms(1) by (simp add: tokens_inv_def)
    then show ?thesis by (simp add: td)
  qed
  have sufs: "\<forall>jb \<in> set ((jobs s)[j := ?jb']). suffix (todo jb) job_body"
    using assms(1) suffix_body_tl [OF suf]
    by (auto simp: tokens_inv_def dest!: set_update_subset_insert [THEN subsetD])
  have same: "jobs s1 = jobs s" "starts s1 = starts s" "sem_cap s1 = sem_cap s"
    using ex by (auto simp: exec_jop_def removeWork_def split: jop.splits if_splits option.splits)
  have cnt: "length (filter holding ((jobs s)[j := ?jb'])) + (if holding ?jb then 1 else 0)
     = length (filter holding (jobs s)) + (if holding ?jb' then 1 else 0)"
    by (rule length_filter_update [OF j])
  show ?thesis
  proof (cases "op = SemSend")
    case True
    then have "rest = []" using suf suffix_body_SemSend by blast
    then have h: "holding ?jb" "\<not> holding ?jb'"
      using td True by (simp_all add: holding_def)
    have "length (sem s1) = Suc (length (sem s))"
      using ex True by (auto simp: exec_jop_def chan_send_def split: if_splits)
    then show ?thesis
      using assms(1) cnt h sufs same
      by (simp add: tokens_inv_def tokens_out_def s')
  next
    case False
    then have h: "holding ?jb" "holding ?jb'"
      using td suffix_body_holding [OF suf] by (simp_all add: holding_def)
    have "sem s1 = sem s"
      using ex False by (auto simp: exec_jop_def removeWork_def split: jop.splits if_splits)
    then show ?thesis
      using assms(1) cnt h sufs same
      by (simp add: tokens_inv_def tokens_out_def s')
  qed
qed

lemma tokens_inv_step:
  assumes "tokens_inv s" "step a s = Some (ob, s')"
  shows "tokens_inv s'"
proof (cases a)
  case (StartSelect c k)
  then show ?thesis using assms by (auto simp: step_def split: if_splits intro: tokens_inv_Start_select)
next
  case (StartLaunch i key now)
  then show ?thesis using assms by (auto simp: step_def split: if_splits intro: tokens_inv_Start_launch)
next
  case (JobStep j p)
  then show ?thesis using assms by (auto simp: step_def split: if_splits intro: tokens_inv_Job_step)
next
  case (CtxExpire c)
  then show ?thesis using assms
    by (auto simp: step_def Ctx_expire_def split: if_splits intro: tokens_inv_cong [OF assms(1)])
next
  case (CallStop key)
  then show ?thesis using assms
    by (auto simp: step_def Stop_def split: if_splits option.splits intro: tokens_inv_cong [OF assms(1)])
next
  case CallRunning
  then show ?thesis using assms by (auto simp: step_def split: if_splits)
next
  case ShutdownClose
  then show ?thesis using assms
    by (auto simp: step_def Shutdown_close_def split: if_splits intro: tokens_inv_cong [OF assms(1)])
next
  case (ShutdownCancelAll i)
  then show ?thesis using assms
    by (auto simp: step_def Shutdown_cancelAll_def cancel_all_def Let_def split: if_splits
             intro: tokens_inv_cong [OF assms(1)])
next
  case (ShutdownSpawn i)
  then show ?thesis using assms
    by (auto simp: step_def Shutdown_spawn_def split: if_splits intro: tokens_inv_cong [OF assms(1)])
next
  case (WaiterWait i)
  then show ?thesis using assms
    by (auto simp: step_def Waiter_wait_def split: if_splits intro: tokens_inv_cong [OF assms(1)])
next
  case (WaiterClose i)
  then show ?thesis using assms
    by (auto simp: step_def Waiter_close_def split: if_splits intro: tokens_inv_cong [OF assms(1)])
next
  case (ShutdownSelect i c k)
  then show ?thesis using assms
    by (auto simp: step_def Shutdown_select_def Let_def split: if_splits
             intro: tokens_inv_cong [OF assms(1)])
qed

lemma tokens_inv_run:
  "tokens_inv (snd cfg) \<Longrightarrow> run as cfg = Some cfg' \<Longrightarrow> tokens_inv (snd cfg')"
proof (induction as arbitrary: cfg)
  case Nil
  then show ?case by simp
next
  case (Cons a as)
  then show ?case
    by (auto split: option.splits dest: tokens_inv_step)
qed

lemma tokens_inv_new: "tokens_inv (new_worker c (replicate c True))"
  by (simp add: tokens_inv_def tokens_out_def new_worker_def)

section \<open>Job traces and the shutdown latch\<close>

lemma job_trace_snoc:
  "job_trace j (evs @ [ev]) =
     job_trace j evs @ (case ev of JobEv i op \<Rightarrow> if i = j then [op] else [] | _ \<Rightarrow> [])"
  by (induction j evs rule: job_trace.induct) (auto split: obs.splits)

lemma exec_jop_same:
  "exec_jop op jb p s = Some (pn, s1) \<Longrightarrow>
   jobs s1 = jobs s \<and> starts s1 = starts s \<and> sem_cap s1 = sem_cap s \<and>
   shutdowns s1 = shutdowns s \<and> isShutdown s1 = isShutdown s"
  by (auto simp: exec_jop_def removeWork_def split: jop.splits if_splits option.splits)

text \<open>What one step does to the job goroutines and what it lets be observed.\<close>

lemma step_jobs:
  assumes "step a s = Some (ob, s')"
  shows "(\<exists>i op rest. ob = JobEv i op \<and> i < length (jobs s) \<and> todo (jobs s ! i) = op # rest \<and>
            length (jobs s') = length (jobs s) \<and> todo (jobs s' ! i) = rest \<and>
            (\<forall>j. j \<noteq> i \<longrightarrow> jobs s' ! j = jobs s ! j))
         \<or> ((\<forall>i op. ob \<noteq> JobEv i op) \<and>
             (jobs s' = jobs s \<or> (\<exists>jb. jobs s' = jobs s @ [jb] \<and> todo jb = job_body)))"
proof (cases a)
  case (StartSelect c k)
  then show ?thesis using assms by (auto simp: step_def Start_select_def split: if_splits)
next
  case (StartLaunch i key now)
  then show ?thesis using assms
    by (auto simp: step_def Start_launch_def Let_def split: if_splits start_call.splits)
next
  case (JobStep j p)
  with assms obtain op rest pn s1 where j: "j < length (jobs s)"
    and td: "todo (jobs s ! j) = op # rest"
    and ex: "exec_jop op (jobs s ! j) p s = Some (pn, s1)"
    and ob: "ob = JobEv j op"
    and s': "jobs s' = (jobs s1)[j := (jobs s ! j)\<lparr>todo := rest,
                 panicking := (panicking (jobs s ! j) \<or> pn)\<rparr>]"
    by (auto simp: step_def Job_step_def Let_def split: if_splits list.splits option.splits)
  have "jobs s1 = jobs s" using exec_jop_same [OF ex] by simp
  then show ?thesis using j td ob s' by auto
next
  case (CtxExpire c)
  then show ?thesis using assms by (auto simp: step_def Ctx_expire_def split: if_splits)
next
  case (CallStop key)
  then show ?thesis using assms
    by (auto simp: step_def Stop_def split: if_splits option.splits)
next
  case CallRunning
  then show ?thesis using assms by (auto simp: step_def split: if_splits)
next
  case ShutdownClose
  then show ?thesis using assms by (auto simp: step_def Shutdown_close_def split: if_splits)
next
  case (ShutdownCancelAll i)
  then show ?thesis using assms
    by (auto simp: step_def Shutdown_cancelAll_def cancel_all_def Let_def split: if_splits)
next
  case (ShutdownSpawn i)
  then show ?thesis using assms by (auto simp: step_def Shutdown_spawn_def split: if_splits)
next
  case (WaiterWait i)
  then show ?thesis using assms by (auto simp: step_def Waiter_wait_def split: if_splits)
next
  case (WaiterClose i)
  then show ?thesis using assms by (auto simp: step_def Waiter_close_def split: if_splits)
next
  case (ShutdownSelect i c k)
  then show ?thesis using assms
    by (auto simp: step_def Shutdown_select_def Let_def split: if_splits)
qed

lemma trace_ok_step:
  assumes "trace_ok j evs s" "step a s = Some (ob, s')"
  shows "trace_ok j (evs @ [ob]) s'"
proof -
  from step_jobs [OF assms(2)] consider
    (job) i op rest where "ob = JobEv i op" "i < length (jobs s)" "todo (jobs s ! i) = op # rest"
      "length (jobs s') = length (jobs s)" "todo (jobs s' ! i) = rest"
      "\<forall>j. j \<noteq> i \<longrightarrow> jobs s' ! j = jobs s ! j"
  | (same) "\<forall>i op. ob \<noteq> JobEv i op" "jobs s' = jobs s"
  | (launch) jb where "\<forall>i op. ob \<noteq> JobEv i op" "jobs s' = jobs s @ [jb]" "todo jb = job_body"
    by blast
  then show ?thesis
  proof cases
    case job
    then show ?thesis
      using assms(1) by (cases "j = i") (auto simp: trace_ok_def job_trace_snoc split: if_splits)
  next
    case same
    then have "job_trace j (evs @ [ob]) = job_trace j evs"
      by (cases ob) (simp_all add: job_trace_snoc)
    then show ?thesis using assms(1) same by (simp add: trace_ok_def)
  next
    case launch
    then have "job_trace j (evs @ [ob]) = job_trace j evs"
      by (cases ob) (simp_all add: job_trace_snoc)
    then show ?thesis
      using assms(1) launch by (auto simp: trace_ok_def nth_append split: if_splits)
  qed
qed

lemma trace_ok_run:
  "trace_ok j (fst cfg) (snd cfg) \<Longrightarrow> run as cfg = Some cfg' \<Longrightarrow> trace_ok j (fst cfg') (snd cfg')"
proof (induction as arbitrary: cfg)
  case Nil
  then show ?case by simp
next
  case (Cons a as)
  then show ?case
    by (auto split: option.splits dest: trace_ok_step)
qed

lemma trace_ok_new: "trace_ok j [] (new_worker c buf)"
  by (simp add: trace_ok_def new_worker_def)

lemma sem_cap_step: "step a s = Some (ob, s') \<Longrightarrow> sem_cap s' = sem_cap s"
  by (cases a)
     (auto simp: step_def Start_select_def Start_launch_def Job_step_def Ctx_expire_def Stop_def
        Shutdown_close_def Shutdown_cancelAll_def cancel_all_def Shutdown_spawn_def
        Waiter_wait_def Waiter_close_def Shutdown_select_def Let_def
        split: if_splits start_call.splits list.splits option.splits dest: exec_jop_same)

lemma sem_cap_run: "run as cfg = Some cfg' \<Longrightarrow> sem_cap (snd cfg') = sem_cap (snd cfg)"
proof (induction as arbitrary: cfg)
  case Nil
  then show ?case by simp
next
  case (Cons a as)
  then show ?case
    by (auto split: option.splits dest: sem_cap_step)
qed

lemma isShutdown_step:
  "step a s = Some (ob, s') \<Longrightarrow> isShutdown s \<or> a = ShutdownClose \<Longrightarrow> isShutdown s'"
  by (cases a)
     (auto simp: step_def Start_select_def Start_launch_def Job_step_def Ctx_expire_def Stop_def
        Shutdown_close_def Shutdown_cancelAll_def cancel_all_def Shutdown_spawn_def
        Waiter_wait_def Waiter_close_def Shutdown_select_def Let_def
        split: if_splits start_call.splits list.splits option.splits dest: exec_jop_same)

lemma isShutdown_run:
  "run as cfg = Some cfg' \<Longrightarrow> isShutdown (snd cfg) \<or> ShutdownClose \<in> set as \<Longrightarrow>
   isShutdown (snd cfg')"
proof (induction as arbitrary: cfg)
  case Nil
  then show ?case by simp
next
  case (Cons a as)
  from Cons.prems(1) obtain ob s1 where st: "step a (snd cfg) = Some (ob, s1)"
    and rn: "run as (fst cfg @ [ob], s1) = Some cfg'"
    by (auto split: option.splits)
  show ?case
  proof (cases "isShutdown (snd cfg) \<or> a = ShutdownClose")
    case True
    then have "isShutdown s1" using isShutdown_step [OF st] by blast
    then show ?thesis using Cons.IH [OF rn] by simp
  next
    case False
    then have "ShutdownClose \<in> set as" using Cons.prems(2) by auto
    then show ?thesis using Cons.IH [OF rn] by simp
  qed
qed

lemma length_filter_mono:
  "(\<And>x. x \<in> set xs \<Longrightarrow> P x \<Longrightarrow> Q x) \<Longrightarrow> length (filter P xs) \<le> length (filter Q xs)"
  by (induction xs) auto

section \<open>Capacity\<close>

text \<open>What holds in every state reached from a worker that \<open>New\<close> returned.\<close>

lemma reach_inv:
  assumes "New capacity = Some (Inr s0)" "run as ([], s0) = Some (evs, s)"
  shows "0 \<le> capacity" "tokens_inv s" "sem_cap s = nat capacity" "trace_ok j evs s"
proof -
  show nn: "0 \<le> capacity"
    using assms(1) by (auto simp: New_def split: if_splits)
  then have s0: "s0 = new_worker (nat capacity) (replicate (nat capacity) True)"
    using assms(1) by (simp add: New_nonneg)
  show "tokens_inv s"
    using tokens_inv_run [OF _ assms(2)] by (simp add: s0 tokens_inv_new)
  show "sem_cap s = nat capacity"
    using sem_cap_run [OF assms(2)] by (simp add: s0 new_worker_def)
  show "trace_ok j evs s"
    using trace_ok_run [OF _ assms(2), of j] by (simp add: s0 trace_ok_new)
qed

text \<open>
  C1. From the worker that \<open>New capacity\<close> returns, under every schedule of \<open>Start\<close>,
  \<open>Stop\<close>, \<open>Shutdown\<close> calls and goroutine steps, the number of job functions executing is
  at most \<open>capacity\<close>: a goroutine whose job function is executing still holds its token
  (it has not yet sent on \<open>sem\<close>), and at most \<open>capacity\<close> goroutines hold one.
\<close>

theorem C1_capacity_bound:
  assumes "New capacity = Some (Inr s0)" "run as ([], s0) = Some (evs, s)"
  shows "length (filter executing (jobs s)) \<le> nat capacity \<and>
         (\<forall>jb \<in> set (jobs s). executing jb \<longrightarrow> holding jb) \<and>
         length (filter holding (jobs s)) \<le> sem_cap s \<and> sem_cap s = nat capacity"
proof -
  note inv = reach_inv [OF assms]
  have eh: "\<And>jb. jb \<in> set (jobs s) \<Longrightarrow> executing jb \<Longrightarrow> holding jb"
    using inv(2) by (auto simp: tokens_inv_def executing_def holding_def
        intro: suffix_body_executing)
  have "length (filter executing (jobs s)) \<le> length (filter holding (jobs s))"
    by (rule length_filter_mono) (rule eh)
  moreover have "length (filter holding (jobs s)) \<le> sem_cap s"
    using inv(2) by (simp add: tokens_inv_def tokens_out_def)
  ultimately show ?thesis using inv(3) eh by auto
qed

text \<open>The equations that evaluate a concrete schedule.\<close>

lemmas run_eval = step_def Start_select_def Start_launch_def Job_step_def exec_jop_def
  Ctx_expire_def Stop_def Shutdown_close_def Shutdown_cancelAll_def cancel_all_def
  Shutdown_spawn_def Waiter_wait_def Waiter_close_def Shutdown_select_def Running_def
  new_worker_def chan_send_def cancel_at_def removeWork_def job_body_eq Let_def
  WithDeadline_def Background_def job_deadline_def Second_def cancel_def expire_def
  errShuttingDown_def errNotRunning_def

text \<open>Two jobs admitted at capacity 2; the first job function has returned.\<close>

theorem C1_capacity_bound_witness:
  "New 2 = Some (Inr (new_worker 2 [True, True])) \<and>
   map_option fst (run [StartSelect Background 2, StartLaunch 0 ''a'' 0,
                        StartSelect Background 2, StartLaunch 1 ''b'' 0, JobStep 0 False]
                     ([], new_worker 2 [True, True]))
     = Some [Tau, StartReturn ''a'' None, Tau, StartReturn ''b'' None, JobEv 0 RunFn] \<and>
   length (filter executing (jobs (snd (the
     (run [StartSelect Background 2, StartLaunch 0 ''a'' 0,
           StartSelect Background 2, StartLaunch 1 ''b'' 0, JobStep 0 False]
        ([], new_worker 2 [True, True])))))) = 1 \<and>
   length (filter holding (jobs (snd (the
     (run [StartSelect Background 2, StartLaunch 0 ''a'' 0,
           StartSelect Background 2, StartLaunch 1 ''b'' 0, JobStep 0 False]
        ([], new_worker 2 [True, True])))))) = 2"
proof -
  let ?sched = "[StartSelect Background 2, StartLaunch 0 ''a'' 0,
                 StartSelect Background 2, StartLaunch 1 ''b'' 0, JobStep 0 False]"
  have h1: "New 2 = Some (Inr (new_worker 2 [True, True]))"
    by (simp add: New_nonneg numeral_2_eq_2)
  obtain evs s where h2: "run ?sched ([], new_worker 2 [True, True]) = Some (evs, s)"
    by (simp add: run_eval)
  have ev: "run ?sched ([], new_worker 2 [True, True]) =
     Some ([Tau, StartReturn ''a'' None, Tau, StartReturn ''b'' None, JobEv 0 RunFn], s)"
    using h2 by (simp add: run_eval)
  have c: "length (filter executing (jobs s)) = 1 \<and> length (filter holding (jobs s)) = 2"
    using h2 by (auto simp add: run_eval executing_def holding_def)
  from C1_capacity_bound [OF h1 h2] h1 ev c show ?thesis by simp
qed

section \<open>Cleanup of a job goroutine\<close>



lemma filter_nonempty_nth: "j < length xs \<Longrightarrow> P (xs ! j) \<Longrightarrow> 0 < length (filter P xs)"
  by (metis filter_empty_conv length_greater_0_conv nth_mem)





section \<open>A second Shutdown\<close>

lemma run_append:
  "run (as @ bs) cfg = (case run as cfg of None \<Rightarrow> None | Some cfg' \<Rightarrow> run bs cfg')"
  by (induction as arbitrary: cfg) (auto split: option.splits)

lemma run_snoc:
  "run as cfg = Some (evs, s) \<Longrightarrow> step a s = Some (ob, s') \<Longrightarrow>
   run (as @ [a]) cfg = Some (evs @ [ob], s')"
  by (simp add: run_append)

text \<open>
  C10. Once line 58 of a \<open>Shutdown\<close> call has run, a further \<open>Shutdown\<close> call on the live
  process panics at its line 58 closing the closed channel, and leaves the state as it
  was: no cancel function has been called by it and no goroutine launched.
\<close>

theorem C10_second_shutdown_panics:
  assumes "run as cfg = Some (evs, s)" "ShutdownClose \<in> set as" "\<not> crashed s"
  shows "step ShutdownClose s = Some (Panic ''close of closed channel'', s)"
proof -
  have "isShutdown s"
    using isShutdown_run [OF assms(1)] assms(2) by simp
  then show ?thesis
    using assms(3) by (simp add: step_def Shutdown_close_def)
qed

text \<open>A first call that drained an idle worker and returned, then a second call.\<close>

theorem C10_second_shutdown_panics_witness:
  "map_option fst (run [ShutdownClose, ShutdownCancelAll 0, ShutdownSpawn 0, WaiterWait 0,
                        WaiterClose 0, ShutdownSelect 0 Background 0, ShutdownClose]
                     ([], new_worker 1 [True]))
     = Some [Tau, Tau, Tau, Tau, Tau, ShutdownReturn None, Panic ''close of closed channel'']"
proof -
  let ?first = "[ShutdownClose, ShutdownCancelAll 0, ShutdownSpawn 0, WaiterWait 0,
                 WaiterClose 0, ShutdownSelect 0 Background 0]"
  obtain s where h: "run ?first ([], new_worker 1 [True])
      = Some ([Tau, Tau, Tau, Tau, Tau, ShutdownReturn None], s)"
    by (simp add: run_eval)
  have m: "ShutdownClose \<in> set ?first" by simp
  have c: "\<not> crashed s" using h by (auto simp: run_eval)
  from run_snoc [OF h C10_second_shutdown_panics [OF h m c]]
  show ?thesis by simp
qed

section \<open>Start fails without effect; Stop\<close>

text \<open>
  C9. Whenever a step lets \<open>Start\<close> return an error, it is the \<open>select\<close> of lines 92-98
  that returns it, by the shutdown case or the \<open>ctx.Done()\<close> case; the key returned is the
  empty string and the whole state is as before: no token taken, no context made, nothing
  registered, \<open>wg\<close> untouched, no goroutine launched.
\<close>

theorem C9_start_failure_atomic:
  assumes "step a s = Some (StartReturn key (Some e), s')"
  shows "s' = s \<and> key = [] \<and>
         (\<exists>c k. a = StartSelect c k \<and>
            (k = 0 \<and> isShutdown s \<and> e = errShuttingDown \<or>
             k = 1 \<and> Err c \<noteq> None \<and> Some e = map_option CtxError (Err c)))"
proof (cases a)
  case (StartSelect c k)
  then show ?thesis using assms
    by (auto simp: step_def Start_select_def split: if_splits)
next
  case (StartLaunch i wk now)
  then show ?thesis using assms
    by (auto simp: step_def Start_launch_def Let_def split: if_splits start_call.splits)
next
  case (JobStep j p)
  then show ?thesis using assms
    by (auto simp: step_def Job_step_def Let_def split: if_splits list.splits option.splits)
next
  case (CtxExpire c)
  then show ?thesis using assms by (auto simp: step_def Ctx_expire_def split: if_splits)
next
  case (CallStop wk)
  then show ?thesis using assms
    by (auto simp: step_def Stop_def split: if_splits option.splits)
next
  case CallRunning
  then show ?thesis using assms by (auto simp: step_def split: if_splits)
next
  case ShutdownClose
  then show ?thesis using assms by (auto simp: step_def Shutdown_close_def split: if_splits)
next
  case (ShutdownCancelAll i)
  then show ?thesis using assms
    by (auto simp: step_def Shutdown_cancelAll_def Let_def split: if_splits)
next
  case (ShutdownSpawn i)
  then show ?thesis using assms by (auto simp: step_def Shutdown_spawn_def split: if_splits)
next
  case (WaiterWait i)
  then show ?thesis using assms by (auto simp: step_def Waiter_wait_def split: if_splits)
next
  case (WaiterClose i)
  then show ?thesis using assms by (auto simp: step_def Waiter_close_def split: if_splits)
next
  case (ShutdownSelect i c k)
  then show ?thesis using assms
    by (auto simp: step_def Shutdown_select_def Let_def split: if_splits)
qed

text \<open>A \<open>Start\<close> whose context is already cancelled, on a fresh worker with a free token.\<close>

theorem C9_start_failure_atomic_witness:
  "step (StartSelect \<lparr>Deadline = None, Err = Some Canceled\<rparr> 1) (new_worker 1 [True])
     = Some (StartReturn [] (Some (CtxError Canceled)), new_worker 1 [True])"
proof -
  have h: "step (StartSelect \<lparr>Deadline = None, Err = Some Canceled\<rparr> 1) (new_worker 1 [True])
     = Some (StartReturn [] (Some (CtxError Canceled)),
             snd (the (step (StartSelect \<lparr>Deadline = None, Err = Some Canceled\<rparr> 1)
                          (new_worker 1 [True]))))"
    by (simp add: step_def Start_select_def new_worker_def)
  from C9_start_failure_atomic [OF h] h show ?thesis by simp
qed

text \<open>
  C6. \<open>Stop\<close> of a key that \<open>running\<close> does not hold (in particular one that \<open>removeWork\<close> has
  deleted) returns the not-running error and the state unchanged. \<open>Stop\<close> of a key that
  \<open>running\<close> holds returns nil after calling the cancel function stored under it: the
  context it refers to is done afterwards. \<open>running\<close> is the same in both cases.
\<close>

theorem C6_stop:
  "(map_of (running s) workKey = None \<longrightarrow>
      Stop workKey s = (StopReturn (Some (errNotRunning workKey)), s)) \<and>
   Stop workKey (removeWork workKey s)
     = (StopReturn (Some (errNotRunning workKey)), removeWork workKey s) \<and>
   (\<forall>c. map_of (running s) workKey = Some c \<longrightarrow>
      Stop workKey s = (StopReturn None, cancel_at c s) \<and>
      (c < length (ctxs s) \<longrightarrow>
         ctxs (snd (Stop workKey s)) = (ctxs s)[c := cancel (ctxs s ! c)] \<and>
         Err (ctxs (snd (Stop workKey s)) ! c) \<noteq> None)) \<and>
   running (snd (Stop workKey s)) = running s"
proof -
  have "map_of (running (removeWork workKey s)) workKey = None"
    by (simp add: removeWork_def delete_conv)
  then have a: "Stop workKey (removeWork workKey s)
     = (StopReturn (Some (errNotRunning workKey)), removeWork workKey s)"
    by (simp add: Stop_def)
  have b: "Err (cancel x) \<noteq> None" for x
    by (simp add: cancel_def split: option.splits)
  show ?thesis
    using a b by (auto simp: Stop_def cancel_at_def split: option.splits)
qed

text \<open>
  One job running under key \<open>a\<close>: stopping \<open>b\<close> fails and changes nothing, stopping \<open>a\<close>
  cancels the job's context.
\<close>

theorem C6_stop_witness:
  "map_option fst (run [StartSelect Background 2, StartLaunch 0 ''a'' 7, CallStop ''b'',
                        CallStop ''a'', JobStep 0 False, JobStep 0 False, JobStep 0 False,
                        CallStop ''a'']
                     ([], new_worker 1 [True]))
     = Some [Tau, StartReturn ''a'' None, StopReturn (Some (errNotRunning ''b'')),
             StopReturn None, JobEv 0 RunFn, JobEv 0 CancelCtx, JobEv 0 RemoveWork,
             StopReturn (Some (errNotRunning ''a''))] \<and>
   (\<exists>evs s. run [StartSelect Background 2, StartLaunch 0 ''a'' 7] ([], new_worker 1 [True])
               = Some (evs, s) \<and>
            map_of (running s) ''b'' = None \<and>
            map_of (running s) ''a'' = Some 0 \<and> 0 < length (ctxs s) \<and>
            Stop ''b'' s = (StopReturn (Some (errNotRunning ''b'')), s) \<and>
            Stop ''a'' s = (StopReturn None, cancel_at 0 s) \<and>
            Err (ctxs s ! 0) = None \<and>
            Err (ctxs (snd (Stop ''a'' s)) ! 0) = Some Canceled)"
proof -
  have r: "map_option fst (run [StartSelect Background 2, StartLaunch 0 ''a'' 7, CallStop ''b'',
                        CallStop ''a'', JobStep 0 False, JobStep 0 False, JobStep 0 False,
                        CallStop ''a'']
                     ([], new_worker 1 [True]))
     = Some [Tau, StartReturn ''a'' None, StopReturn (Some (errNotRunning ''b'')),
             StopReturn None, JobEv 0 RunFn, JobEv 0 CancelCtx, JobEv 0 RemoveWork,
             StopReturn (Some (errNotRunning ''a''))]"
    by (simp add: run_eval)
  obtain evs s where h: "run [StartSelect Background 2, StartLaunch 0 ''a'' 7]
      ([], new_worker 1 [True]) = Some (evs, s)"
    by (simp add: run_eval)
  have f: "map_of (running s) ''b'' = None" "map_of (running s) ''a'' = Some 0"
    "0 < length (ctxs s)" "Err (ctxs s ! 0) = None"
    using h by (auto simp: run_eval)
  have g: "Err (ctxs (snd (Stop ''a'' s)) ! 0) = Some Canceled"
    using f by (simp add: Stop_def cancel_at_def cancel_def)
  from C6_stop [of s "''b''"] C6_stop [of s "''a''"] f g h r show ?thesis
    by auto
qed

section \<open>The job context; capacity zero; admission after shutdown\<close>

text \<open>
  C5. When an admitted \<open>Start\<close> call with caller context \<open>c\<close> launches its job at clock
  reading \<open>now\<close>, it returns the key with a nil error, and the context handed to the job
  function is \<open>WithDeadline\<close> of \<open>Background\<close>: its deadline is the caller's when the
  caller has one and \<open>now\<close> plus one second otherwise, and whether it is done at birth
  depends on that deadline and the clock only, not on the caller's context being done.
  The cancel function registered under the key is that context's.
\<close>

theorem C5_job_context:
  assumes "Start_launch i workKey now s = Some (ob, s')" "starts s ! i = Admitted c"
  shows "ob = StartReturn workKey None \<and>
         jobs s' = jobs s @ [\<lparr>jkey = workKey, jctx = length (ctxs s), todo = job_body,
                               panicking = False\<rparr>] \<and>
         ctxs s' = ctxs s @ [WithDeadline Background (job_deadline c now) now] \<and>
         Deadline (ctxs s' ! length (ctxs s))
           = Some (case Deadline c of Some d \<Rightarrow> d | None \<Rightarrow> now + 1000000000) \<and>
         Err (ctxs s' ! length (ctxs s))
           = (if (case Deadline c of Some d \<Rightarrow> d | None \<Rightarrow> now + 1000000000) \<le> now
              then Some DeadlineExceeded else None) \<and>
         map_of (running s') workKey = Some (length (ctxs s))"
  using assms
  by (auto simp: Start_launch_def Let_def WithDeadline_def Background_def job_deadline_def
        Second_def update_conv' split: if_splits option.splits)

text \<open>
  Two calls at clock reading 5: one whose context has deadline 42 and is already cancelled
  (the runtime picked the \<open>sem\<close> case all the same), one with \<open>Background\<close>.
\<close>

theorem C5_job_context_witness:
  "map_option (\<lambda>r. (fst r, ctxs (snd r)))
     (run [StartSelect \<lparr>Deadline = Some 42, Err = Some Canceled\<rparr> 2, StartSelect Background 2,
           StartLaunch 0 ''a'' 5, StartLaunch 1 ''b'' 5]
        ([], new_worker 2 [True, True]))
   = Some ([Tau, Tau, StartReturn ''a'' None, StartReturn ''b'' None],
           [\<lparr>Deadline = Some 42, Err = None\<rparr>, \<lparr>Deadline = Some 1000000005, Err = None\<rparr>]) \<and>
   (\<exists>s ob s'.
       run [StartSelect \<lparr>Deadline = Some 42, Err = Some Canceled\<rparr> 2, StartSelect Background 2]
         ([], new_worker 2 [True, True]) = Some ([Tau, Tau], s) \<and>
       starts s ! 1 = Admitted Background \<and>
       Start_launch 1 ''b'' 5 s = Some (ob, s') \<and> ob = StartReturn ''b'' None \<and>
       ctxs s' = [\<lparr>Deadline = Some 1000000005, Err = None\<rparr>] \<and>
       map_of (running s') ''b'' = Some 0)"
proof -
  have r: "map_option (\<lambda>r. (fst r, ctxs (snd r)))
     (run [StartSelect \<lparr>Deadline = Some 42, Err = Some Canceled\<rparr> 2, StartSelect Background 2,
           StartLaunch 0 ''a'' 5, StartLaunch 1 ''b'' 5]
        ([], new_worker 2 [True, True]))
   = Some ([Tau, Tau, StartReturn ''a'' None, StartReturn ''b'' None],
           [\<lparr>Deadline = Some 42, Err = None\<rparr>, \<lparr>Deadline = Some 1000000005, Err = None\<rparr>])"
    by (simp add: run_eval)
  obtain s where h: "run [StartSelect \<lparr>Deadline = Some 42, Err = Some Canceled\<rparr> 2,
      StartSelect Background 2] ([], new_worker 2 [True, True]) = Some ([Tau, Tau], s)"
    by (simp add: run_eval)
  have a: "starts s ! 1 = Admitted Background" "ctxs s = []"
    using h by (auto simp: run_eval)
  obtain ob s' where l: "Start_launch 1 ''b'' 5 s = Some (ob, s')"
    using h by (auto simp: run_eval)
  from C5_job_context [OF l a(1)] a(2) have "ob = StartReturn ''b'' None \<and>
       ctxs s' = [\<lparr>Deadline = Some 1000000005, Err = None\<rparr>] \<and>
       map_of (running s') ''b'' = Some 0"
    by (simp add: WithDeadline_def Background_def job_deadline_def Second_def)
  with a l r h show ?thesis by blast
qed

text \<open>
  With capacity 0 nothing of the kind that admission needs ever exists: no token, no
  admitted call, no goroutine.
\<close>

lemma cap0_step:
  assumes "step a s = Some (ob, s')" "sem s = []" "starts s = []" "jobs s = []"
  shows "sem s' = [] \<and> starts s' = [] \<and> jobs s' = []"
  using assms
  by (cases a)
     (auto simp: step_def Start_select_def Start_launch_def Job_step_def Ctx_expire_def Stop_def
        Shutdown_close_def Shutdown_cancelAll_def cancel_all_def Shutdown_spawn_def
        Waiter_wait_def Waiter_close_def Shutdown_select_def Let_def
        split: if_splits option.splits)

lemma cap0_run:
  "run as cfg = Some cfg' \<Longrightarrow> sem (snd cfg) = [] \<Longrightarrow> starts (snd cfg) = [] \<Longrightarrow>
   jobs (snd cfg) = [] \<Longrightarrow>
   sem (snd cfg') = [] \<and> starts (snd cfg') = [] \<and> jobs (snd cfg') = []"
proof (induction as arbitrary: cfg)
  case Nil
  then show ?case by simp
next
  case (Cons a as)
  from Cons.prems(1) obtain ob s1 where st: "step a (snd cfg) = Some (ob, s1)"
    and rn: "run as (fst cfg @ [ob], s1) = Some cfg'"
    by (auto split: option.splits)
  from cap0_step [OF st Cons.prems(2-4)] Cons.IH [OF rn] show ?case by simp
qed

text \<open>
  C7, as stated, fails: on the worker \<open>New 0\<close> returns, a \<open>Start\<close> with a context that is
  not done and the latch open has no ready case in its \<open>select\<close>; the call is not
  rejected, it does not return.
\<close>

theorem C7_capacity_zero_counterexample:
  "New 0 = Some (Inr (new_worker 0 [])) \<and>
   step (StartSelect Background 0) (new_worker 0 []) = None \<and>
   step (StartSelect Background 1) (new_worker 0 []) = None \<and>
   step (StartSelect Background 2) (new_worker 0 []) = None"
  by (simp add: New_nonneg step_def Start_select_def new_worker_def Background_def)

text \<open>
  C7, amended. \<open>New\<close> of a negative capacity returns the error and no worker. \<open>New 0\<close>
  returns a worker, and in every state reached from it no token is in \<open>sem\<close>, no call is
  admitted and no goroutine exists; the \<open>select\<close> of a \<open>Start\<close> call there either returns
  an error with the empty key and the state unchanged, or no case is ready, and the
  latter is so whenever the latch is open and the caller's context is not done.
\<close>

theorem C7_new_capacity:
  "(capacity < 0 \<longrightarrow> New capacity = Some (Inl errInvalidCapacity)) \<and>
   New 0 = Some (Inr (new_worker 0 [])) \<and>
   (run as ([], new_worker 0 []) = Some (evs, s) \<longrightarrow>
      sem s = [] \<and> starts s = [] \<and> jobs s = [] \<and>
      (step (StartSelect c k) s = None \<or>
       (\<exists>e. step (StartSelect c k) s = Some (StartReturn [] (Some e), s))) \<and>
      (\<not> isShutdown s \<and> Err c = None \<longrightarrow> step (StartSelect c k) s = None) \<and>
      step (StartLaunch i workKey now) s = None)"
proof -
  have a: "capacity < 0 \<longrightarrow> New capacity = Some (Inl errInvalidCapacity)"
    by (simp add: New_def)
  have b: "New 0 = Some (Inr (new_worker 0 []))"
    by (simp add: New_nonneg)
  have c: "sem s = [] \<and> starts s = [] \<and> jobs s = [] \<and>
      (step (StartSelect c k) s = None \<or>
       (\<exists>e. step (StartSelect c k) s = Some (StartReturn [] (Some e), s))) \<and>
      (\<not> isShutdown s \<and> Err c = None \<longrightarrow> step (StartSelect c k) s = None) \<and>
      step (StartLaunch i workKey now) s = None"
    if r: "run as ([], new_worker 0 []) = Some (evs, s)"
  proof -
    have e: "sem s = [] \<and> starts s = [] \<and> jobs s = []"
      using cap0_run [OF r] by (simp add: new_worker_def)
    then show ?thesis
      by (auto simp: step_def Start_select_def Start_launch_def)
  qed
  show ?thesis using a b c by blast
qed

text \<open>
  \<open>New (-1)\<close>; and a capacity-0 worker after \<open>Shutdown\<close> has closed the latch, where
  \<open>Start\<close> returns the shutting-down error.
\<close>

theorem C7_new_capacity_witness:
  "New (-1) = Some (Inl errInvalidCapacity) \<and>
   New 0 = Some (Inr (new_worker 0 [])) \<and>
   map_option fst (run [ShutdownClose, StartSelect Background 0] ([], new_worker 0 []))
     = Some [Tau, StartReturn [] (Some errShuttingDown)] \<and>
   step (StartSelect Background 2) (new_worker 0 []) = None \<and>
   step (StartSelect Background 2)
     (snd (the (run [ShutdownClose] ([], new_worker 0 [])))) = None"
proof -
  obtain evs s where r: "run [ShutdownClose] ([], new_worker 0 []) = Some (evs, s)"
    by (simp add: run_eval)
  have r0: "run [] ([], new_worker 0 []) = Some ([], new_worker 0 [])"
    by simp
  have sd: "isShutdown s" "\<not> crashed s" using r by (auto simp: run_eval)
  have m: "map_option fst (run [ShutdownClose, StartSelect Background 0] ([], new_worker 0 []))
     = Some [Tau, StartReturn [] (Some errShuttingDown)]"
    by (simp add: run_eval)
  have o: "\<not> isShutdown (new_worker 0 [])" "Err Background = None"
    by (simp_all add: new_worker_def Background_def)
  from C7_new_capacity [of "-1" "[ShutdownClose]" evs s Background 2 0 "[]" 0]
    C7_new_capacity [of "-1" "[]" "[]" "new_worker 0 []" Background 2 0 "[]" 0]
    r r0 sd m o
  show ?thesis
    by (auto simp: step_def Start_select_def)
qed

text \<open>
  C2, on the code. After a \<open>Shutdown\<close> that has returned nil on a worker of capacity 1,
  the \<open>select\<close> of a \<open>Start\<close> call with \<open>Background\<close> has two ready cases: the closed
  latch and the token in \<open>sem\<close>. The runtime may pick the second, and \<open>Start\<close> then
  registers and launches the job and returns its key with a nil error.
\<close>

theorem C2_start_after_shutdown:
  "New 1 = Some (Inr (new_worker 1 [True])) \<and>
   map_option (\<lambda>r. (fst r, isShutdown (snd r), Running (snd r)))
     (run [ShutdownClose, ShutdownCancelAll 0, ShutdownSpawn 0, WaiterWait 0, WaiterClose 0,
           ShutdownSelect 0 Background 0, StartSelect Background 2, StartLaunch 0 ''a'' 0]
        ([], new_worker 1 [True]))
   = Some ([Tau, Tau, Tau, Tau, Tau, ShutdownReturn None, Tau, StartReturn ''a'' None], True, 1)"
  by (simp add: New_nonneg run_eval)

text \<open>
  C4, on the code. A \<open>Start\<close> call takes the token of a worker of capacity 1 at its
  \<open>select\<close>; before it registers its job, a \<open>Shutdown\<close> call closes the latch, finds
  \<open>running\<close> empty, and its waiting goroutine finds the counter of \<open>wg\<close> zero and
  closes \<open>ch\<close>; the \<open>Start\<close> call then registers and launches the job; \<open>Shutdown\<close>
  returns nil, and \<open>Running\<close> returns 1 after it: the job function is still executing.
\<close>

theorem C4_shutdown_returns_with_job_running:
  "New 1 = Some (Inr (new_worker 1 [True])) \<and>
   map_option (\<lambda>r. (fst r, map executing (jobs (snd r))))
     (run [StartSelect Background 2, ShutdownClose, ShutdownCancelAll 0, ShutdownSpawn 0,
           WaiterWait 0, WaiterClose 0, StartLaunch 0 ''a'' 0, ShutdownSelect 0 Background 0,
           CallRunning]
        ([], new_worker 1 [True]))
   = Some ([Tau, Tau, Tau, Tau, Tau, Tau, StartReturn ''a'' None, ShutdownReturn None,
            RunningReturn 1], [True])"
  by (simp add: New_nonneg run_eval executing_def)

section \<open>What the wait of Shutdown establishes\<close>

lemma suffix_body_WgDone:
  "suffix (WgDone # rest) job_body \<Longrightarrow> WgDone \<notin> set rest"
  by (auto simp: job_body_eq suffix_Cons)

lemma suffix_body_before_WgDone:
  "suffix xs job_body \<Longrightarrow> RemoveWork \<in> set xs \<Longrightarrow> WgDone \<in> set xs"
  by (auto simp: job_body_eq suffix_Cons)

lemma suffix_body_RunFn_RemoveWork:
  "suffix xs job_body \<Longrightarrow> RunFn \<in> set xs \<Longrightarrow> RemoveWork \<in> set xs"
  by (auto simp: job_body_eq suffix_Cons)

lemma drain_inv_cong:
  "drain_inv s \<Longrightarrow> wg s' = wg s \<Longrightarrow> jobs s' = jobs s \<Longrightarrow> running s' = running s \<Longrightarrow>
   drain_inv s'"
  by (simp add: drain_inv_def)

lemma drain_inv_Start_launch:
  assumes "drain_inv s" "Start_launch i key now s = Some (ob, s')"
  shows "drain_inv s'"
proof -
  let ?jb = "\<lparr>jkey = key, jctx = length (ctxs s), todo = job_body, panicking = False\<rparr>"
  from assms(2) have s': "wg s' = wg s + 1" "jobs s' = jobs s @ [?jb]"
    "running s' = AList.update key (length (ctxs s)) (running s)"
    by (auto simp: Start_launch_def Let_def split: if_splits start_call.splits)
  have w: "wg s' = length (filter (\<lambda>jb. WgDone \<in> set (todo jb)) (jobs s'))"
    using assms(1) by (simp add: s' drain_inv_def job_body_eq)
  have r: "\<exists>i < length (jobs s'). jkey (jobs s' ! i) = k \<and> RemoveWork \<in> set (todo (jobs s' ! i))"
    if "k \<in> fst ` set (running s')" for k
  proof (cases "k = key")
    case True
    have "jkey (jobs s' ! length (jobs s)) = key \<and>
          RemoveWork \<in> set (todo (jobs s' ! length (jobs s)))"
      by (simp add: s' job_body_eq)
    then show ?thesis using True s'(2) by (intro exI [of _ "length (jobs s)"]) simp
  next
    case False
    then have "k \<in> fst ` set (running s)"
      using that by (simp add: s' dom_update)
    then obtain i where "i < length (jobs s)" "jkey (jobs s ! i) = k"
      "RemoveWork \<in> set (todo (jobs s ! i))"
      using assms(1) by (auto simp: drain_inv_def)
    then show ?thesis
      by (intro exI [of _ i]) (simp add: s' nth_append)
  qed
  show ?thesis using w r by (simp add: drain_inv_def)
qed

lemma drain_inv_Job_step:
  assumes "drain_inv s" "tokens_inv s" "Job_step j p s = Some (ob, s')"
  shows "drain_inv s'"
proof -
  from assms(3) obtain op rest pn s1 where j: "j < length (jobs s)"
    and td: "todo (jobs s ! j) = op # rest"
    and ex: "exec_jop op (jobs s ! j) p s = Some (pn, s1)"
    and js: "jobs s' = (jobs s1)[j := (jobs s ! j)\<lparr>todo := rest,
                 panicking := (panicking (jobs s ! j) \<or> pn)\<rparr>]"
    and ws: "wg s' = wg s1" "running s' = running s1"
    by (auto simp: Job_step_def Let_def split: if_splits list.splits option.splits)
  let ?jb = "jobs s ! j"
  let ?jb' = "?jb\<lparr>todo := rest, panicking := (panicking ?jb \<or> pn)\<rparr>"
  let ?W = "\<lambda>jb. WgDone \<in> set (todo jb)"
  have j1: "jobs s1 = jobs s" using exec_jop_same [OF ex] by simp
  have suf: "suffix (op # rest) job_body"
  proof -
    have "jobs s ! j \<in> set (jobs s)" using j by simp
    then have "suffix (todo (jobs s ! j)) job_body"
      using assms(2) by (simp add: tokens_inv_def)
    then show ?thesis by (simp add: td)
  qed
  have cnt: "length (filter ?W ((jobs s)[j := ?jb'])) + (if ?W ?jb then 1 else 0)
     = length (filter ?W (jobs s)) + (if ?W ?jb' then 1 else 0)"
    by (rule length_filter_update [OF j])
  have w0: "wg s = length (filter ?W (jobs s))"
    using assms(1) by (simp add: drain_inv_def)
  have w: "wg s' = length (filter ?W (jobs s'))"
  proof (cases "op = WgDone")
    case True
    then have h: "?W ?jb" "\<not> ?W ?jb'"
      using td suf suffix_body_WgDone by auto
    have "0 < length (filter ?W (jobs s))"
      using j h(1) by (rule filter_nonempty_nth)
    then have pos: "0 < wg s"
      using w0 by simp
    then have "wg s1 = wg s - 1"
      using ex True by (auto simp: exec_jop_def split: if_splits)
    then show ?thesis using cnt h pos w0 by (simp add: js j1 ws)
  next
    case False
    then have h: "?W ?jb = ?W ?jb'" using td by simp
    have "wg s1 = wg s"
      using ex False by (auto simp: exec_jop_def removeWork_def split: jop.splits option.splits)
    then show ?thesis using cnt h w0 by (simp add: js j1 ws split: if_splits)
  qed
  have r: "\<exists>i < length (jobs s'). jkey (jobs s' ! i) = k \<and> RemoveWork \<in> set (todo (jobs s' ! i))"
    if k: "k \<in> fst ` set (running s')" for k
  proof -
    have sub: "k \<in> fst ` set (running s) \<and> (op = RemoveWork \<longrightarrow> k \<noteq> jkey ?jb)"
      using k ex
      by (cases op)
         (auto simp: ws exec_jop_def removeWork_def AList.delete_eq split: if_splits option.splits)
    then obtain i where i: "i < length (jobs s)" "jkey (jobs s ! i) = k"
      "RemoveWork \<in> set (todo (jobs s ! i))"
      using assms(1) by (auto simp: drain_inv_def)
    show ?thesis
    proof (cases "i = j")
      case True
      then have "op \<noteq> RemoveWork" using sub i(2) by auto
      then have "RemoveWork \<in> set rest" using i(3) td True by simp
      then show ?thesis
        using i True j by (intro exI [of _ j]) (simp add: js j1)
    next
      case False
      then show ?thesis
        using i by (intro exI [of _ i]) (simp add: js j1)
    qed
  qed
  show ?thesis using w r by (simp add: drain_inv_def)
qed

lemma drain_inv_step:
  assumes "drain_inv s" "tokens_inv s" "step a s = Some (ob, s')"
  shows "drain_inv s'"
proof (cases a)
  case (StartSelect c k)
  then show ?thesis using assms
    by (auto simp: step_def Start_select_def split: if_splits intro: drain_inv_cong [OF assms(1)])
next
  case (StartLaunch i key now)
  then show ?thesis using assms by (auto simp: step_def split: if_splits intro: drain_inv_Start_launch)
next
  case (JobStep j p)
  then show ?thesis using assms by (auto simp: step_def split: if_splits intro: drain_inv_Job_step)
next
  case (CtxExpire c)
  then show ?thesis using assms
    by (auto simp: step_def Ctx_expire_def split: if_splits intro: drain_inv_cong [OF assms(1)])
next
  case (CallStop key)
  then show ?thesis using assms
    by (auto simp: step_def Stop_def split: if_splits option.splits intro: drain_inv_cong [OF assms(1)])
next
  case CallRunning
  then show ?thesis using assms by (auto simp: step_def split: if_splits)
next
  case ShutdownClose
  then show ?thesis using assms
    by (auto simp: step_def Shutdown_close_def split: if_splits intro: drain_inv_cong [OF assms(1)])
next
  case (ShutdownCancelAll i)
  then show ?thesis using assms
    by (auto simp: step_def Shutdown_cancelAll_def cancel_all_def Let_def split: if_splits
             intro: drain_inv_cong [OF assms(1)])
next
  case (ShutdownSpawn i)
  then show ?thesis using assms
    by (auto simp: step_def Shutdown_spawn_def split: if_splits intro: drain_inv_cong [OF assms(1)])
next
  case (WaiterWait i)
  then show ?thesis using assms
    by (auto simp: step_def Waiter_wait_def split: if_splits intro: drain_inv_cong [OF assms(1)])
next
  case (WaiterClose i)
  then show ?thesis using assms
    by (auto simp: step_def Waiter_close_def split: if_splits intro: drain_inv_cong [OF assms(1)])
next
  case (ShutdownSelect i c k)
  then show ?thesis using assms
    by (auto simp: step_def Shutdown_select_def Let_def split: if_splits
             intro: drain_inv_cong [OF assms(1)])
qed

lemma drain_inv_run:
  "drain_inv (snd cfg) \<Longrightarrow> tokens_inv (snd cfg) \<Longrightarrow> run as cfg = Some cfg' \<Longrightarrow>
   drain_inv (snd cfg')"
proof (induction as arbitrary: cfg)
  case Nil
  then show ?case by simp
next
  case (Cons a as)
  from Cons.prems(3) obtain ob s1 where st: "step a (snd cfg) = Some (ob, s1)"
    and rn: "run as (fst cfg @ [ob], s1) = Some cfg'"
    by (auto split: option.splits)
  have "drain_inv s1" "tokens_inv s1"
    using drain_inv_step [OF Cons.prems(1,2) st] tokens_inv_step [OF Cons.prems(2) st] by auto
  then show ?case using Cons.IH [OF _ _ rn] by simp
qed

text \<open>
  What the wait of line 73 does establish: at the step where \<open>wg.Wait()\<close> returns, no job
  function is executing and \<open>running\<close> is empty. Nothing keeps it so until the \<open>select\<close> of
  lines 79-84 is decided.
\<close>

lemma drained_when_wait_returns:
  assumes "New capacity = Some (Inr s0)" "run as ([], s0) = Some (evs, s)"
    and "step (WaiterWait i) s = Some (ob, s')"
  shows "Running s' = 0 \<and> filter executing (jobs s') = []"
proof -
  note inv = reach_inv [OF assms(1,2)]
  have s0: "s0 = new_worker (nat capacity) (replicate (nat capacity) True)"
    using assms(1) inv(1) by (simp add: New_nonneg)
  have "drain_inv s0" by (simp add: s0 drain_inv_def new_worker_def)
  moreover have "tokens_inv s0" by (simp add: s0 tokens_inv_new)
  ultimately have d: "drain_inv s"
    using drain_inv_run [OF _ _ assms(2)] by simp
  from assms(3) have z: "wg s = 0" and same: "jobs s' = jobs s" "running s' = running s"
    by (auto simp: step_def Waiter_wait_def split: if_splits)
  have nw: "WgDone \<notin> set (todo jb)" if "jb \<in> set (jobs s)" for jb
    using d z that by (auto simp: drain_inv_def filter_empty_conv)
  have suf: "suffix (todo jb) job_body" if "jb \<in> set (jobs s)" for jb
    using inv(2) that by (simp add: tokens_inv_def)
  have nr: "RemoveWork \<notin> set (todo jb)" if "jb \<in> set (jobs s)" for jb
    using nw [OF that] suf [OF that] suffix_body_before_WgDone by blast
  have "running s = []"
  proof (rule ccontr)
    assume "running s \<noteq> []"
    then obtain k where "k \<in> fst ` set (running s)"
      by (cases "running s") auto
    then obtain i where "i < length (jobs s)" "RemoveWork \<in> set (todo (jobs s ! i))"
      using d by (auto simp: drain_inv_def)
    then show False using nr nth_mem by blast
  qed
  moreover have "\<not> executing jb" if "jb \<in> set (jobs s)" for jb
    using nr [OF that] suf [OF that] suffix_body_RunFn_RemoveWork
    by (auto simp: executing_def)
  ultimately show ?thesis
    by (simp add: Running_def same filter_empty_conv)
qed

end
